theory Spec2Isabelle
  imports Complex_Main "HOL-Library.Extended_Nat" "HOL-Library.Sublist"
begin

section \<open>JavaScript values read by the chart utilities\<close>

text \<open>
  A sampled value is only ever compared, never computed with, so a double that is not NaN is
  modelled by its exact position on the extended real line: a finite value or one of the two
  infinities (\<open>-0\<close> and \<open>+0\<close> compare equal in JavaScript and are the same real).
\<close>

datatype num = NegInf | Fin real | PosInf

instantiation num :: linorder
begin

fun less_eq_num :: "num \<Rightarrow> num \<Rightarrow> bool" where
  "less_eq_num NegInf _ = True"
| "less_eq_num _ PosInf = True"
| "less_eq_num (Fin a) (Fin b) = (a \<le> b)"
| "less_eq_num _ _ = False"

definition less_num :: "num \<Rightarrow> num \<Rightarrow> bool" where
  "less_num a b = (a \<le> b \<and> \<not> b \<le> a)"

instance
proof
  fix x y z :: num
  show "(x < y) = (x \<le> y \<and> \<not> y \<le> x)" by (simp add: less_num_def)
  show "x \<le> x" by (cases x) auto
  show "x \<le> y \<Longrightarrow> y \<le> z \<Longrightarrow> x \<le> z" by (cases x; cases y; cases z) auto
  show "x \<le> y \<Longrightarrow> y \<le> x \<Longrightarrow> x = y" by (cases x; cases y) auto
  show "x \<le> y \<or> y \<le> x" by (cases x; cases y) auto
qed

end

text \<open>A JavaScript number is NaN or a comparable double.\<close>

datatype jsnum = NaN | Num num

text \<open>
  The values a field of a data point holds (\<open>DataPoint = {[key: string]: unknown}\<close>): the
  JSON scalars, and \<open>undefined\<close> for a field that is read but absent.
\<close>

datatype jsval = JUndefined | JNull | JBool bool | JNumber jsnum | JString string

type_synonym obj = "string \<rightharpoonup> jsval"

text \<open>\<open>point[valueKey]\<close>: reading an absent property gives \<open>undefined\<close>.\<close>

definition getField :: "obj \<Rightarrow> string \<Rightarrow> jsval" where
  "getField point key = (case point key of None \<Rightarrow> JUndefined | Some v \<Rightarrow> v)"

text \<open>
  \<open>Number(v)\<close>. The conversion of a string (ECMAScript StringToNumber) is a builtin of the
  language and is taken as the parameter \<open>strToNum\<close>.
\<close>

fun toNumber :: "(string \<Rightarrow> jsnum) \<Rightarrow> jsval \<Rightarrow> jsnum" where
  "toNumber strToNum JUndefined = NaN"
| "toNumber strToNum JNull = Num (Fin 0)"
| "toNumber strToNum (JBool b) = Num (Fin (if b then 1 else 0))"
| "toNumber strToNum (JNumber n) = n"
| "toNumber strToNum (JString s) = strToNum s"

text \<open>\<open>x || 0\<close> on a number: NaN and zero are falsy, every other number is kept.\<close>

fun orZero :: "jsnum \<Rightarrow> num" where
  "orZero NaN = Fin 0"
| "orZero (Num n) = (if n = Fin 0 then Fin 0 else n)"

text \<open>\<open>Number(point[valueKey]) || 0\<close> for the object behind reference \<open>p\<close>.\<close>

definition fieldValue :: "(string \<Rightarrow> jsnum) \<Rightarrow> ('r \<Rightarrow> obj) \<Rightarrow> string \<Rightarrow> 'r \<Rightarrow> num" where
  "fieldValue strToNum heap valueKey p = orZero (toNumber strToNum (getField (heap p) valueKey))"

section \<open>Array helpers\<close>

text \<open>
  \<open>Math.ceil(a / b)\<close> for \<open>a > 0\<close> and \<open>b \<ge> 0\<close>: dividing a positive number by zero
  gives \<open>Infinity\<close>. For array lengths (below \<open>2^32\<close>) the rounding of the double quotient
  never crosses an integer, so the ceiling is the exact one.
\<close>

definition ceilQuot :: "real \<Rightarrow> real \<Rightarrow> enat" where
  "ceilQuot a b = (if b = 0 then \<infinity> else enat (nat \<lceil>a / b\<rceil>))"

text \<open>\<open>xs.slice(a, b)\<close> for non-negative integers \<open>a\<close>, \<open>b\<close>.\<close>

definition sliceJS :: "'a list \<Rightarrow> nat \<Rightarrow> nat \<Rightarrow> 'a list" where
  "sliceJS xs a b = take (b - a) (drop a xs)"

text \<open>\<open>xs.indexOf(x)\<close>: the first index holding \<open>x\<close> (strict equality), \<open>-1\<close> if none.\<close>

fun indexOf :: "'a list \<Rightarrow> 'a \<Rightarrow> int" where
  "indexOf [] x = -1"
| "indexOf (y # ys) x =
     (if y = x then 0 else (let r = indexOf ys x in if r < 0 then -1 else r + 1))"

section \<open>chart-sampling: minMaxSample\<close>

text \<open>
  A series is an array of object references; \<open>===\<close> on references is identity, which is
  equality on the reference type \<open>'r\<close>. The objects live in \<open>heap\<close>. \<open>maxPoints\<close> is a count.
  The guard \<open>!data\<close> is about \<open>null\<close> and \<open>undefined\<close>, which the parameter type \<open>T[]\<close>
  excludes.

  The scan of one bucket: \<open>for (const point of bucket)\<close> with the four running variables.
\<close>

fun scanBucket :: "('r \<Rightarrow> 'v::linorder) \<Rightarrow> 'r list \<Rightarrow> 'r \<Rightarrow> 'r \<Rightarrow> 'v \<Rightarrow> 'v \<Rightarrow> 'r \<times> 'r" where
  "scanBucket val [] minPoint maxPoint minVal maxVal = (minPoint, maxPoint)"
| "scanBucket val (point # rest) minPoint maxPoint minVal maxVal =
     (let v = val point;
          (minVal', minPoint') = (if v < minVal then (v, point) else (minVal, minPoint));
          (maxVal', maxPoint') = (if v > maxVal then (v, point) else (maxVal, maxPoint))
      in scanBucket val rest minPoint' maxPoint' minVal' maxVal')"

text \<open>
  "Find min and max in bucket": the scan started with both running points at \<open>bucket[0]\<close>.
\<close>

definition bucketExtrema :: "('r \<Rightarrow> 'v::linorder) \<Rightarrow> 'r list \<Rightarrow> 'r \<times> 'r" where
  "bucketExtrema val bucket =
     scanBucket val bucket (bucket ! 0) (bucket ! 0) (val (bucket ! 0)) (val (bucket ! 0))"

text \<open>The body of the bucket loop: what one bucket pushes onto \<open>result\<close>.\<close>

definition emitBucket :: "('r \<Rightarrow> 'v::linorder) \<Rightarrow> 'r list \<Rightarrow> 'r list" where
  "emitBucket val bucket =
     (if length bucket = 0 then []
      else if length bucket = 1 then [bucket ! 0]
      else
        (let (minPoint, maxPoint) = bucketExtrema val bucket;
             minIndex = indexOf bucket minPoint;
             maxIndex = indexOf bucket maxPoint
         in if minIndex \<le> maxIndex
            then minPoint # (if minPoint \<noteq> maxPoint then [maxPoint] else [])
            else maxPoint # (if minPoint \<noteq> maxPoint then [minPoint] else [])))"

text \<open>
  \<open>for (let i = 0; i < data.length; i += bucketSize)\<close>. The index and the step are
  non-negative integers or \<open>Infinity\<close>. With a step of zero the loop would never end:
  that is the value \<open>None\<close>.
\<close>

function minMaxLoop ::
  "('r \<Rightarrow> 'v::linorder) \<Rightarrow> 'r list \<Rightarrow> enat \<Rightarrow> enat \<Rightarrow> 'r list \<Rightarrow> 'r list option" where
  "minMaxLoop val data bucketSize i result =
     (if i < enat (length data) then
        (if bucketSize = 0 then None
         else minMaxLoop val data bucketSize (i + bucketSize)
                (result @ emitBucket val
                   (sliceJS data (the_enat i)
                      (the_enat (min (i + bucketSize) (enat (length data)))))))
      else Some result)"
  by pat_completeness auto
termination
  apply (relation "measure (\<lambda>(val, data, bucketSize, i, result).
                   case i of enat n \<Rightarrow> Suc (length data) - n | \<infinity> \<Rightarrow> 0)")
   apply simp
  subgoal for val data bucketSize i result
    by (cases i; cases bucketSize) (auto simp: zero_enat_def)
  done

definition minMaxSample ::
  "(string \<Rightarrow> jsnum) \<Rightarrow> ('r \<Rightarrow> obj) \<Rightarrow> 'r list \<Rightarrow> nat \<Rightarrow> string \<Rightarrow> 'r list option" where
  "minMaxSample strToNum heap data maxPoints valueKey =
     (if length data = 0 then Some []
      else if length data \<le> maxPoints then Some data
      else
        (let bucketSize = ceilQuot (real (length data)) (real maxPoints / 2)
         in minMaxLoop (fieldValue strToNum heap valueKey) data bucketSize 0 []))"

section \<open>chart-sampling: evenSample\<close>

text \<open>
  \<open>for (let i = 0; i < data.length; i += step) result.push(data[i])\<close>, then the last
  point. The element type is any type whose \<open>!==\<close> is the negation of an equality, as it
  is for object references.
\<close>

function evenLoop :: "'a list \<Rightarrow> enat \<Rightarrow> enat \<Rightarrow> 'a list \<Rightarrow> 'a list option" where
  "evenLoop data step i result =
     (if i < enat (length data) then
        (if step = 0 then None
         else evenLoop data step (i + step) (result @ [data ! the_enat i]))
      else Some result)"
  by pat_completeness auto
termination
  apply (relation "measure (\<lambda>(data, step, i, result).
                   case i of enat n \<Rightarrow> Suc (length data) - n | \<infinity> \<Rightarrow> 0)")
   apply simp
  subgoal for data step i result
    by (cases i; cases step) (auto simp: zero_enat_def)
  done

text \<open>
  \<open>result[result.length - 1]\<close> of an empty \<open>result\<close> is \<open>undefined\<close>, which is not
  identical to any point.
\<close>

definition evenSample :: "'a list \<Rightarrow> nat \<Rightarrow> 'a list option" where
  "evenSample data maxPoints =
     (if length data = 0 then Some []
      else if length data \<le> maxPoints then Some data
      else
        (let step = ceilQuot (real (length data)) (real maxPoints)
         in case evenLoop data step 0 [] of
              None \<Rightarrow> None
            | Some result \<Rightarrow>
                Some (if result = [] \<or> result ! (length result - 1) \<noteq> data ! (length data - 1)
                      then result @ [data ! (length data - 1)]
                      else result)))"

section \<open>Buckets\<close>

text \<open>
  The buckets of a series as the specification's data model describes them: consecutive,
  non-overlapping sub-ranges of \<open>bucketSize\<close> points that partition the input, the last
  one possibly shorter. An infinite \<open>bucketSize\<close> puts the whole (non-empty) input into one
  bucket. The loop of \<open>minMaxSample\<close> is shown below to slice exactly these.
\<close>

function chop :: "nat \<Rightarrow> 'a list \<Rightarrow> 'a list list" where
  "chop k xs = (if k = 0 \<or> xs = [] then [] else take k xs # chop k (drop k xs))"
  by pat_completeness auto
termination
  by (relation "measure (\<lambda>(k, xs). length xs)") auto

definition buckets :: "enat \<Rightarrow> 'a list \<Rightarrow> 'a list list" where
  "buckets bucketSize xs =
     (case bucketSize of enat k \<Rightarrow> chop k xs | \<infinity> \<Rightarrow> (if xs = [] then [] else [xs]))"

section \<open>Fixtures of the scenarios\<close>

text \<open>A StringToNumber for series that hold no strings.\<close>

definition noStrings :: "string \<Rightarrow> jsnum" where
  "noStrings s = NaN"

text \<open>
  The scenario series \<open>[{t:0,v:1},{t:1,v:9},{t:2,v:2},{t:3,v:0}]\<close>: four objects, at the
  references 0 to 3.
\<close>

definition pointObj :: "real \<Rightarrow> real \<Rightarrow> obj" where
  "pointObj t v = [''t'' \<mapsto> JNumber (Num (Fin t)), ''v'' \<mapsto> JNumber (Num (Fin v))]"

definition scenarioHeap :: "nat \<Rightarrow> obj" where
  "scenarioHeap r =
     (if r = 0 then pointObj 0 1
      else if r = 1 then pointObj 1 9
      else if r = 2 then pointObj 2 2
      else if r = 3 then pointObj 3 0
      else Map.empty)"

section \<open>Numbers as text\<close>

text \<open>
  \<open>String(n)\<close> and \<open>`${n}`\<close> for an integer \<open>n\<close>: its decimal digits, with a minus sign
  when negative (JavaScript switches to exponent notation only from \<open>10^21\<close> on, far above
  any count or year).
\<close>

definition digitChar :: "nat \<Rightarrow> char" where
  "digitChar d = ''0123456789'' ! d"

fun showNat :: "nat \<Rightarrow> string" where
  "showNat n = (if n < 10 then [digitChar n] else showNat (n div 10) @ [digitChar (n mod 10)])"

definition showInt :: "int \<Rightarrow> string" where
  "showInt i = (if i < 0 then CHR ''-'' # showNat (nat (- i)) else showNat (nat i))"

section \<open>chart-sampling: checkRenderingLimits\<close>

text \<open>The returned object \<open>{ needsFallback: boolean; reason?: string }\<close>.\<close>

record renderingLimits =
  needsFallback :: bool
  reason :: "string option"

definition MAX_CHART_POINTS :: nat where
  "MAX_CHART_POINTS = 500"

definition MAX_CATEGORIES :: nat where
  "MAX_CATEGORIES = 12"

text \<open>
  The counts are non-negative integers; the optional \<open>categoryCount\<close> is \<open>None\<close> when not
  supplied. \<open>categoryCount && \<dots>\<close> is falsy for \<open>undefined\<close> and for \<open>0\<close>.
\<close>

definition checkRenderingLimits :: "nat \<Rightarrow> nat option \<Rightarrow> renderingLimits" where
  "checkRenderingLimits dataLength categoryCount =
     (if dataLength > MAX_CHART_POINTS * 2 then
        \<lparr>needsFallback = True,
         reason = Some (''Too many data points ('' @ showNat dataLength @ '') for chart rendering'')\<rparr>
      else
        (case categoryCount of
           Some c \<Rightarrow>
             if c \<noteq> 0 \<and> c > MAX_CATEGORIES then
               \<lparr>needsFallback = True,
                reason = Some (''Too many categories ('' @ showNat c @ '') for readable chart'')\<rparr>
             else \<lparr>needsFallback = False, reason = None\<rparr>
         | None \<Rightarrow> \<lparr>needsFallback = False, reason = None\<rparr>))"

section \<open>axis-formatter: formatDateLabel\<close>

datatype dateFormat = FmtYear | FmtMonth | FmtDay | FmtAuto

text \<open>The argument \<open>value: string | number\<close>, for any representation \<open>'n\<close> of numbers.\<close>

datatype 'n labelValue = NumberValue 'n | StringValue string

text \<open>
  What the formatter reads from a valid \<open>Date\<close>: \<open>getFullYear()\<close>, \<open>getMonth()\<close>
  (from 0) and \<open>getDate()\<close>, all in local time.
\<close>

record jsDate =
  fullYear :: int
  monthIndex :: nat
  dayOfMonth :: nat

definition isDigit :: "char \<Rightarrow> bool" where
  "isDigit c = (c \<in> set ''0123456789'')"

text \<open>\<open>/^\d{4}$/\<close>: exactly four digits.\<close>

definition isBareYear :: "string \<Rightarrow> bool" where
  "isBareYear s = (length s = 4 \<and> list_all isDigit s)"

text \<open>\<open>/^\d{4}-\d{2}-\d{2}/\<close>: a prefix of the form \<open>YYYY-MM-DD\<close>.\<close>

definition isIsoPrefixed :: "string \<Rightarrow> bool" where
  "isIsoPrefixed s =
     (10 \<le> length s
      \<and> list_all isDigit (take 4 s) \<and> s ! 4 = CHR ''-''
      \<and> list_all isDigit (take 2 (drop 5 s)) \<and> s ! 7 = CHR ''-''
      \<and> list_all isDigit (take 2 (drop 8 s)))"

definition months :: "string list" where
  "months = [''Jan'', ''Feb'', ''Mar'', ''Apr'', ''May'', ''Jun'',
             ''Jul'', ''Aug'', ''Sep'', ''Oct'', ''Nov'', ''Dec'']"

text \<open>\<open>`${months[i]}`\<close>: an index outside the array reads \<open>undefined\<close>.\<close>

definition monthName :: "nat \<Rightarrow> string" where
  "monthName i = (if i < length months then months ! i else ''undefined'')"

text \<open>
  \<open>String(n)\<close> of a number and \<open>new Date(str)\<close> are builtins, taken as the parameters
  \<open>numberToString\<close> and \<open>parseDate\<close>; \<open>parseDate str = None\<close> stands for an invalid date
  (\<open>isNaN(date.getTime())\<close>). Neither throws.
\<close>

definition formatDateLabel ::
  "('n \<Rightarrow> string) \<Rightarrow> (string \<Rightarrow> jsDate option) \<Rightarrow> 'n labelValue \<Rightarrow> dateFormat \<Rightarrow> string" where
  "formatDateLabel numberToString parseDate val format =
     (case val of
        NumberValue n \<Rightarrow> numberToString n
      | StringValue str \<Rightarrow>
          if isBareYear str then str
          else if isIsoPrefixed str then
            (case parseDate str of
               Some date \<Rightarrow>
                 if format = FmtYear \<or> format = FmtAuto then showInt (fullYear date)
                 else if format = FmtMonth then
                   monthName (monthIndex date) @ '' '' @ [CHR 0x27] @ drop 2 (showInt (fullYear date))
                 else if format = FmtDay then
                   monthName (monthIndex date) @ '' '' @ showNat (dayOfMonth date)
                 else str
             | None \<Rightarrow> str)
          else str)"

text \<open>A date parser for examples: it knows one date and rejects every other string.\<close>

definition sampleParseDate :: "string \<Rightarrow> jsDate option" where
  "sampleParseDate str =
     (if str = ''2024-01-15'' then Some \<lparr>fullYear = 2024, monthIndex = 0, dayOfMonth = 15\<rparr>
      else None)"

section \<open>chart-sampling: calculateTicks\<close>

text \<open>
  \<open>calculateTicks\<close> computes with JavaScript numbers. Their arithmetic (IEEE 754 doubles,
  with rounding, infinities and NaN) and the functions \<open>Math.log10\<close> and \<open>Math.pow\<close>, which
  the language leaves implementation-approximated, are not code of the repository: the model
  takes them as a parameter, one field for each operation the function uses, over any type
  \<open>'d\<close> of numbers. The comparisons are parameters too, since \<open><=\<close> and \<open>>=\<close> are both false
  on NaN.
\<close>

record 'd arith =
  fromNat :: "nat \<Rightarrow> 'd"
  fsub :: "'d \<Rightarrow> 'd \<Rightarrow> 'd"
  fdiv :: "'d \<Rightarrow> 'd \<Rightarrow> 'd"
  fmul :: "'d \<Rightarrow> 'd \<Rightarrow> 'd"
  fadd :: "'d \<Rightarrow> 'd \<Rightarrow> 'd"
  ffloor :: "'d \<Rightarrow> 'd"
  flog10 :: "'d \<Rightarrow> 'd"
  fpow :: "'d \<Rightarrow> 'd \<Rightarrow> 'd"
  fle :: "'d \<Rightarrow> 'd \<Rightarrow> bool"
  fge :: "'d \<Rightarrow> 'd \<Rightarrow> bool"
  feq :: "'d \<Rightarrow> 'd \<Rightarrow> bool"
  fmin :: "'d list \<Rightarrow> 'd"
  fmax :: "'d list \<Rightarrow> 'd"








section \<open>Properties of the helpers\<close>

declare chop.simps [simp del] minMaxLoop.simps [simp del] evenLoop.simps [simp del]
  showNat.simps [simp del]

lemma chop_Nil [simp]: "chop k [] = []"
  by (simp add: chop.simps)

lemma chop_0 [simp]: "chop 0 xs = []"
  by (simp add: chop.simps)

lemma chop_step: "0 < k \<Longrightarrow> xs \<noteq> [] \<Longrightarrow> chop k xs = take k xs # chop k (drop k xs)"
  by (subst chop.simps) simp

lemma concat_chop: "0 < k \<Longrightarrow> concat (chop k xs) = xs"
proof (induction k xs rule: chop.induct)
  case (1 k xs)
  show ?case
  proof (cases "xs = []")
    case True
    then show ?thesis by simp
  next
    case False
    with 1 show ?thesis by (simp add: chop_step)
  qed
qed

lemma chop_member: "b \<in> set (chop k xs) \<Longrightarrow> b \<noteq> [] \<and> length b \<le> k"
proof (induction k xs rule: chop.induct)
  case (1 k xs)
  show ?case
  proof (cases "k = 0 \<or> xs = []")
    case True
    with 1(2) show ?thesis by auto
  next
    case False
    with 1 show ?thesis by (auto simp: chop_step)
  qed
qed

lemma length_chop: "0 < k \<Longrightarrow> length (chop k xs) = (length xs + k - 1) div k"
proof (induction k xs rule: chop.induct)
  case (1 k xs)
  show ?case
  proof (cases "xs = []")
    case True
    with 1(2) show ?thesis by simp
  next
    case False
    show ?thesis
    proof (cases "length xs \<le> k")
      case True
      with False 1(2) have "(length xs + k - 1) div k = 1"
        by (cases xs) (auto simp: div_eq_dividend_iff  div_nat_eqI)
      with True False 1(2) show ?thesis by (simp add: chop_step)
    next
      case gt: False
      then have "length xs + k - 1 = (length xs - k + k - 1) + k" by simp
      then have "(length xs + k - 1) div k = Suc ((length xs - k + k - 1) div k)"
        using 1(2) by (metis div_add_self2 Suc_eq_plus1 less_numeral_extra(3))
      with False 1 show ?thesis by (simp add: chop_step)
    qed
  qed
qed

lemma concat_buckets: "bucketSize \<noteq> 0 \<Longrightarrow> concat (buckets bucketSize xs) = xs"
  by (cases bucketSize) (auto simp: buckets_def concat_chop zero_enat_def)

lemma chop_subset: "b \<in> set (chop k xs) \<Longrightarrow> set b \<subseteq> set xs"
proof (induction k xs rule: chop.induct)
  case (1 k xs)
  show ?case
  proof (cases "k = 0 \<or> xs = []")
    case True
    with 1(2) show ?thesis by auto
  next
    case False
    with 1 show ?thesis
      by (auto simp: chop_step dest: in_set_takeD in_set_dropD)
  qed
qed

lemma buckets_member: "b \<in> set (buckets bucketSize xs) \<Longrightarrow> b \<noteq> [] \<and> set b \<subseteq> set xs"
  by (cases bucketSize) (auto simp: buckets_def dest: chop_member chop_subset split: if_splits)

lemma buckets_Nil [simp]: "buckets bucketSize [] = []"
  by (cases bucketSize) (simp_all add: buckets_def)

lemma sliceJS_bucket: "sliceJS data n (min (n + k) (length data)) = take k (drop n data)"
  by (simp add: sliceJS_def min_def)

lemma minMaxLoop_buckets:
  assumes "bucketSize \<noteq> 0"
  shows "minMaxLoop val data bucketSize (enat n) result
         = Some (result @ concat (map (emitBucket val) (buckets bucketSize (drop n data))))"
proof (induction "length data - n" arbitrary: n result rule: less_induct)
  case less
  show ?case
  proof (cases "n < length data")
    case False
    then show ?thesis by (subst minMaxLoop.simps) simp
  next
    case True
    show ?thesis
    proof (cases bucketSize)
      case infinity
      with True show ?thesis
        apply (subst minMaxLoop.simps)
        apply (simp add: buckets_def sliceJS_def)
        apply (subst minMaxLoop.simps)
        apply simp
        done
    next
      case (enat k)
      with assms have k: "0 < k" by (simp add: zero_enat_def)
      from True k have "length data - (n + k) < length data - n" by simp
      from less [OF this]
      have ih: "\<And>r. minMaxLoop val data bucketSize (enat (n + k)) r
              = Some (r @ concat (map (emitBucket val) (buckets bucketSize (drop (n + k) data))))" .
      from True k have "chop k (drop n data)
          = take k (drop n data) # chop k (drop (n + k) data)"
        by (simp add: chop_step add.commute)
      with True enat k ih show ?thesis
        apply (subst minMaxLoop.simps)
        apply (simp add: buckets_def sliceJS_bucket zero_enat_def)
        done
    qed
  qed
qed

lemma evenLoop_buckets:
  assumes "step \<noteq> 0"
  shows "evenLoop data step (enat n) result
         = Some (result @ map hd (buckets step (drop n data)))"
proof (induction "length data - n" arbitrary: n result rule: less_induct)
  case less
  show ?case
  proof (cases "n < length data")
    case False
    then show ?thesis by (subst evenLoop.simps) simp
  next
    case True
    show ?thesis
    proof (cases step)
      case infinity
      with True show ?thesis
        apply (subst evenLoop.simps)
        apply (simp add: buckets_def hd_drop_conv_nth)
        apply (subst evenLoop.simps)
        apply simp
        done
    next
      case (enat k)
      with assms have k: "0 < k" by (simp add: zero_enat_def)
      from True k have "length data - (n + k) < length data - n" by simp
      from less [OF this]
      have ih: "\<And>r. evenLoop data step (enat (n + k)) r
              = Some (r @ map hd (buckets step (drop (n + k) data)))" .
      from True k have "chop k (drop n data)
          = take k (drop n data) # chop k (drop (n + k) data)"
        by (simp add: chop_step add.commute)
      with True enat k ih show ?thesis
        apply (subst evenLoop.simps)
        apply (simp add: buckets_def zero_enat_def hd_drop_conv_nth)
        done
    qed
  qed
qed

lemma scanBucket_extrema:
  assumes "scanBucket val xs minPoint maxPoint (val minPoint) (val maxPoint) = (a, b)"
  shows "a \<in> insert minPoint (set xs) \<and> b \<in> insert maxPoint (set xs)
         \<and> val a \<le> val minPoint \<and> val maxPoint \<le> val b
         \<and> (\<forall>x\<in>set xs. val a \<le> val x \<and> val x \<le> val b)"
  using assms
proof (induction xs arbitrary: minPoint maxPoint)
  case Nil
  then show ?case by simp
next
  case (Cons x xs)
  let ?mn = "if val x < val minPoint then x else minPoint"
  let ?mx = "if val maxPoint < val x then x else maxPoint"
  from Cons.prems have "scanBucket val xs ?mn ?mx (val ?mn) (val ?mx) = (a, b)"
    by (simp add: Let_def split: if_splits)
  from Cons.IH [OF this] show ?case
    by (auto split: if_splits)
qed

lemma bucketExtrema_props:
  assumes "bucket \<noteq> []" and "bucketExtrema val bucket = (a, b)"
  shows "a \<in> set bucket \<and> b \<in> set bucket
         \<and> (\<forall>x\<in>set bucket. val a \<le> val x \<and> val x \<le> val b)"
proof -
  from assms(1) have "bucket ! 0 \<in> set bucket" by (cases bucket) auto
  with scanBucket_extrema [OF assms(2) [unfolded bucketExtrema_def]] show ?thesis
    by auto
qed

lemma indexOf_nonneg: "x \<in> set xs \<Longrightarrow> 0 \<le> indexOf xs x"
  by (induction xs) (auto simp: Let_def)

lemma indexOf_order:
  assumes "x \<in> set xs" and "y \<in> set xs" and "x \<noteq> y"
  shows "if indexOf xs x \<le> indexOf xs y then subseq [x, y] xs else subseq [y, x] xs"
  using assms
proof (induction xs)
  case Nil
  then show ?case by simp
next
  case (Cons z zs)
  show ?case
  proof (cases "z = x")
    case True
    with Cons.prems have "y \<in> set zs" by auto
    then have "subseq [y] zs" by (simp add: subseq_singleton_left)
    with True Cons.prems indexOf_nonneg [of y zs] \<open>y \<in> set zs\<close> show ?thesis
      by (auto simp: Let_def)
  next
    case zx: False
    show ?thesis
    proof (cases "z = y")
      case True
      with Cons.prems have "x \<in> set zs" by auto
      with True Cons.prems indexOf_nonneg [of x zs] show ?thesis
        by (auto simp: Let_def subseq_singleton_left)
    next
      case False
      with zx Cons.prems have in_zs: "x \<in> set zs" "y \<in> set zs" by auto
      from Cons.IH [OF in_zs Cons.prems(3)] zx False indexOf_nonneg [OF in_zs(1)]
        indexOf_nonneg [OF in_zs(2)]
      show ?thesis
        by (auto simp: Let_def split: if_splits)
    qed
  qed
qed

lemma emitBucket_extrema:
  assumes "bucket \<noteq> []"
  shows "emitBucket val bucket =
     (case bucketExtrema val bucket of (minPoint, maxPoint) \<Rightarrow>
        if minPoint = maxPoint then [minPoint]
        else if indexOf bucket minPoint \<le> indexOf bucket maxPoint then [minPoint, maxPoint]
        else [maxPoint, minPoint])"
proof (cases bucket)
  case Nil
  with assms show ?thesis by simp
next
  case (Cons x xs)
  show ?thesis
  proof (cases xs)
    case Nil
    with Cons show ?thesis by (simp add: emitBucket_def bucketExtrema_def)
  next
    case (Cons y ys)
    with \<open>bucket = x # xs\<close> show ?thesis
      by (simp add: emitBucket_def Let_def split: prod.splits)
  qed
qed

lemma emitBucket_subseq: "subseq (emitBucket val bucket) bucket"
proof (cases "bucket = []")
  case True
  then show ?thesis by (simp add: emitBucket_def)
next
  case False
  obtain a b where ab: "bucketExtrema val bucket = (a, b)" by (cases "bucketExtrema val bucket")
  from bucketExtrema_props [OF False ab] have mem: "a \<in> set bucket" "b \<in> set bucket" by auto
  show ?thesis
  proof (cases "a = b")
    case True
    with False ab mem show ?thesis by (simp add: emitBucket_extrema subseq_singleton_left)
  next
    case ne: False
    from indexOf_order [OF mem ne] False ab ne show ?thesis
      by (simp add: emitBucket_extrema split: if_splits)
  qed
qed

lemma emitBucket_length: "length (emitBucket val bucket) \<le> 2"
  by (cases "bucket = []") (auto simp: emitBucket_extrema emitBucket_def split: prod.splits)

lemma subseq_concat_map:
  assumes "\<And>b. b \<in> set bs \<Longrightarrow> subseq (f b) b"
  shows "subseq (concat (map f bs)) (concat bs)"
  using assms by (induction bs) (auto intro: list_emb_append_mono)

lemma subseq_map_hd:
  assumes "\<And>b. b \<in> set bs \<Longrightarrow> b \<noteq> []"
  shows "subseq (map hd bs) (concat bs)"
proof -
  have "subseq (concat (map (\<lambda>b. [hd b]) bs)) (concat bs)"
    using assms by (intro subseq_concat_map) (auto simp: subseq_singleton_left)
  moreover have "concat (map (\<lambda>b. [hd b]) bs) = map hd bs" by (induction bs) auto
  ultimately show ?thesis by simp
qed

lemma length_concat_map_le:
  assumes "\<And>b. b \<in> set bs \<Longrightarrow> length (f b) \<le> c"
  shows "length (concat (map f bs)) \<le> c * length bs"
  using assms
proof (induction bs)
  case Nil
  then show ?case by simp
next
  case (Cons b bs)
  from Cons.prems [of b] have "length (f b) \<le> c" by simp
  moreover from Cons have "length (concat (map f bs)) \<le> c * length bs" by simp
  ultimately show ?case by (simp add: algebra_simps)
qed

lemma subseq_indices:
  assumes "subseq xs ys"
  shows "\<exists>is. sorted_wrt (<) is \<and> (\<forall>i\<in>set is. i < length ys) \<and> xs = map ((!) ys) is"
  using assms
proof (induction rule: list_emb.induct)
  case (list_emb_Nil ys)
  show ?case by (rule exI [of _ "[]"]) simp
next
  case (list_emb_Cons xs ys y)
  then obtain "is" where "sorted_wrt (<) is" "\<forall>i\<in>set is. i < length ys" "xs = map ((!) ys) is"
    by blast
  then show ?case
    by (intro exI [of _ "map Suc is"]) (auto simp: sorted_wrt_map)
next
  case (list_emb_Cons2 x y xs ys)
  then obtain "is" where "sorted_wrt (<) is" "\<forall>i\<in>set is. i < length ys" "xs = map ((!) ys) is"
    by blast
  with list_emb_Cons2(1) show ?case
    by (intro exI [of _ "0 # map Suc is"]) (auto simp: sorted_wrt_map)
qed

lemma ceilQuot_nonzero:
  assumes "0 < a" and "0 \<le> b"
  shows "ceilQuot a b \<noteq> 0"
proof (cases "b = 0")
  case True
  then show ?thesis by (simp add: ceilQuot_def)
next
  case False
  with assms have "0 < a / b" by simp
  then have "0 < nat \<lceil>a / b\<rceil>" by simp
  with False show ?thesis by (simp add: ceilQuot_def zero_enat_def)
qed

lemma ceilQuot_finite:
  assumes "0 < b"
  shows "\<exists>k. ceilQuot a b = enat k \<and> a \<le> real k * b \<and> (0 < a \<longrightarrow> 0 < k)"
proof -
  let ?k = "nat \<lceil>a / b\<rceil>"
  have "a / b \<le> real ?k" by (rule real_nat_ceiling_ge)
  with assms have "a \<le> real ?k * b" by (simp add: pos_divide_le_eq)
  moreover have "0 < a \<longrightarrow> 0 < ?k" using assms by simp
  ultimately show ?thesis using assms by (auto simp: ceilQuot_def)
qed

lemma nat_ceiling_div:
  assumes "0 < k"
  shows "nat \<lceil>real n / real k\<rceil> = (n + k - 1) div k"
proof -
  define q where "q = (n + k - 1) div k"
  from assms have "n + k - 1 < k + k * q"
    unfolding q_def by (rule dividend_less_times_div)
  with assms have up: "n \<le> k * q" by arith
  have "k * q \<le> n + k - 1"
    unfolding q_def by (rule times_div_less_eq_dividend)
  with assms have lo: "k * q < n + k" by arith
  from up have "real n \<le> real (k * q)" by (rule of_nat_mono)
  with assms have 1: "real n / real k \<le> real_of_int (int q)"
    by (simp add: pos_divide_le_eq mult.commute)
  from lo have "real (k * q) < real (n + k)" by (simp only: of_nat_less_iff)
  then have "(real q - 1) * real k < real n" by (simp add: algebra_simps)
  moreover from assms have "0 < real k" by simp
  ultimately have "real q - 1 < real n / real k" by (simp only: pos_less_divide_eq)
  then have 2: "real_of_int (int q) - 1 < real n / real k" by simp
  from 2 1 have "\<lceil>real n / real k\<rceil> = int q" by (rule ceiling_unique)
  then show ?thesis by (simp add: q_def)
qed

lemma minMaxSample_sampled:
  assumes "maxPoints < length data"
  shows "minMaxSample strToNum heap data maxPoints valueKey
         = Some (concat (map (emitBucket (fieldValue strToNum heap valueKey))
                   (buckets (ceilQuot (real (length data)) (real maxPoints / 2)) data)))"
proof -
  from assms have "ceilQuot (real (length data)) (real maxPoints / 2) \<noteq> 0"
    by (intro ceilQuot_nonzero) auto
  from minMaxLoop_buckets [OF this, where val = "fieldValue strToNum heap valueKey"
      and data = data and n = 0 and result = "[]"] assms show ?thesis
    by (auto simp: minMaxSample_def zero_enat_def)
qed

lemma evenSample_sampled:
  assumes "maxPoints < length data"
  shows "evenSample data maxPoints
         = Some (let result = map hd (buckets (ceilQuot (real (length data)) (real maxPoints)) data)
                 in if result = [] \<or> result ! (length result - 1) \<noteq> data ! (length data - 1)
                    then result @ [data ! (length data - 1)] else result)"
proof -
  from assms have "ceilQuot (real (length data)) (real maxPoints) \<noteq> 0"
    by (intro ceilQuot_nonzero) auto
  moreover from assms have "data \<noteq> []" by auto
  ultimately show ?thesis
    using evenLoop_buckets [of _ data 0 "[]"] assms
    by (simp add: evenSample_def zero_enat_def Let_def)
qed

lemma buckets_hd:
  assumes "xs \<noteq> []" and "bucketSize \<noteq> 0"
  shows "buckets bucketSize xs \<noteq> [] \<and> hd (hd (buckets bucketSize xs)) = hd xs"
proof (cases bucketSize)
  case (enat k)
  with assms have "0 < k" by (simp add: zero_enat_def)
  with assms enat show ?thesis by (simp add: buckets_def chop_step)
next
  case infinity
  with assms show ?thesis by (simp add: buckets_def)
qed

lemma length_buckets:
  "length (buckets bucketSize xs) =
     (case bucketSize of enat k \<Rightarrow> nat \<lceil>real (length xs) / real k\<rceil>
      | \<infinity> \<Rightarrow> (if xs = [] then 0 else 1))"
proof (cases bucketSize)
  case (enat k)
  then show ?thesis
    by (cases "k = 0") (simp_all add: buckets_def length_chop nat_ceiling_div)
next
  case infinity
  then show ?thesis by (simp add: buckets_def)
qed

lemmas scenario_eval =
  minMaxSample_def ceilQuot_def scenarioHeap_def pointObj_def noStrings_def fieldValue_def
  getField_def emitBucket_def bucketExtrema_def sliceJS_def less_num_def zero_enat_def
  minMaxLoop.simps

lemma last_index: "xs \<noteq> [] \<Longrightarrow> xs ! (length xs - 1) = last xs"
  by (simp add: last_conv_nth)

lemma evenSample_append_subseq:
  assumes "data \<noteq> []" and "bucketSize \<noteq> 0"
    and "last (map hd (buckets bucketSize data)) \<noteq> last data"
  shows "subseq (map hd (buckets bucketSize data) @ [last data]) data"
proof -
  let ?bs = "buckets bucketSize data"
  from buckets_hd [OF assms(1,2)] have "?bs \<noteq> []" by simp
  then obtain front lb where split: "?bs = front @ [lb]"
    by (metis append_butlast_last_id)
  from concat_buckets [OF assms(2), of data] split
  have data: "data = concat front @ lb" by simp
  have ne: "\<And>b. b \<in> set ?bs \<Longrightarrow> b \<noteq> []" using buckets_member by blast
  with split have "lb \<noteq> []" by simp
  then obtain x rest where lb: "lb = x # rest" by (cases lb) auto
  from assms(3) split lb data have "rest \<noteq> []" by (auto split: if_splits)
  with lb data have lastd: "last data = last rest" by simp
  from \<open>rest \<noteq> []\<close> have "subseq [last rest] rest" by (simp add: subseq_singleton_left)
  then have tail: "subseq [x, last rest] lb" unfolding lb by simp
  have "subseq (map hd front) (concat front)"
    by (rule subseq_map_hd) (use ne split in auto)
  from list_emb_append_mono [OF this tail] split lb lastd data show ?thesis
    by simp
qed

lemma evenSample_sampled_last:
  assumes "maxPoints < length data"
    and "r = map hd (buckets (ceilQuot (real (length data)) (real maxPoints)) data)"
  shows "r \<noteq> [] \<and> hd r = hd data \<and> subseq r data
         \<and> evenSample data maxPoints
             = Some (if last r \<noteq> last data then r @ [last data] else r)"
proof -
  let ?step = "ceilQuot (real (length data)) (real maxPoints)"
  from assms(1) have step: "?step \<noteq> 0" by (intro ceilQuot_nonzero) auto
  from assms(1) have ne: "data \<noteq> []" by auto
  from buckets_hd [OF ne step] assms(2) have rne: "r \<noteq> []" and hd: "hd r = hd data"
    by (simp_all add: hd_map)
  have "subseq (map hd (buckets ?step data)) (concat (buckets ?step data))"
    by (rule subseq_map_hd) (use buckets_member in blast)
  with step assms(2) have sub: "subseq r data" by (simp add: concat_buckets)
  have "evenSample data maxPoints
        = Some (if r = [] \<or> r ! (length r - 1) \<noteq> data ! (length data - 1)
                then r @ [data ! (length data - 1)] else r)"
    unfolding assms(2) evenSample_sampled [OF assms(1)] Let_def ..
  with rne ne have "evenSample data maxPoints
        = Some (if last r \<noteq> last data then r @ [last data] else r)"
    by (simp add: last_conv_nth)
  with rne hd sub show ?thesis by simp
qed

lemma emitBucket_set:
  assumes "bucket \<noteq> []" and "bucketExtrema val bucket = (a, b)"
  shows "set (emitBucket val bucket) = {a, b} \<and> (a = b \<longrightarrow> emitBucket val bucket = [a])"
  using assms by (auto simp: emitBucket_extrema)

lemma fieldValue_coerced:
  "(heap p valueKey = None \<longrightarrow> fieldValue strToNum heap valueKey p = Fin 0)
   \<and> (toNumber strToNum (getField (heap p) valueKey) = NaN
        \<longrightarrow> fieldValue strToNum heap valueKey p = Fin 0)"
  by (simp add: fieldValue_def getField_def)

lemma fieldValue_numeric:
  "heap p valueKey = Some (JNumber (Num n)) \<Longrightarrow> fieldValue strToNum heap valueKey p = n"
  by (simp add: fieldValue_def getField_def)

lemma fieldValue_null:
  "heap p valueKey = Some JNull \<Longrightarrow> fieldValue strToNum heap valueKey p = Fin 0"
  by (simp add: fieldValue_def getField_def)













section \<open>The envelope scenario\<close>

text \<open>
  C1, as stated: buckets of size 2 and all four points returned. The code computes
  \<open>bucketSize = ceil(4 / (2 / 2)) = 4\<close> and does not return the four points.
\<close>

theorem envelope_scenario_counterexample:
  "ceilQuot (real (length [0, 1, 2, 3 :: nat])) (real 2 / 2) \<noteq> enat 2
   \<and> buckets (ceilQuot (real (length [0, 1, 2, 3 :: nat])) (real 2 / 2)) [0, 1, 2, 3 :: nat]
       \<noteq> [[0, 1], [2, 3]]
   \<and> minMaxSample noStrings scenarioHeap [0, 1, 2, 3] 2 ''v'' \<noteq> Some [0, 1, 2, 3]"
  by (simp add: scenario_eval buckets_def chop.simps)

text \<open>
  C1, amended: on the scenario series with \<open>maxPoints = 2\<close> and value field \<open>v\<close>,
  \<open>bucketSize = ceil(4 / (2 / 2)) = 4\<close>, the whole input is the single bucket, its minimum
  is the point \<open>{t:3,v:0}\<close> and its maximum \<open>{t:1,v:9}\<close>, and the result is
  \<open>[{t:1,v:9},{t:3,v:0}]\<close>: the maximum first, since it occurs first.
\<close>

theorem envelope_scenario:
  "ceilQuot (real (length [0, 1, 2, 3 :: nat])) (real 2 / 2) = enat 4
   \<and> buckets (enat 4) [0, 1, 2, 3 :: nat] = [[0, 1, 2, 3]]
   \<and> bucketExtrema (fieldValue noStrings scenarioHeap ''v'') [0, 1, 2, 3] = (3, 1)
   \<and> minMaxSample noStrings scenarioHeap [0, 1, 2, 3] 2 ''v'' = Some [1, 3]"
  by (simp add: scenario_eval buckets_def chop.simps)

section \<open>Extremum preservation\<close>

text \<open>
  C2. \<open>minMaxSample\<close> returns, and for every bucket of the bucketing rule the point the
  scan selects as minimum and the point it selects as maximum belong to the bucket, attain
  the least and the greatest value of the sampled field in it, and both appear in the
  output; when they are the same point the bucket emits it once. When sampling runs, the
  output is exactly what the buckets emit, in order. The value compared is the number a
  numeric field holds, and \<open>0\<close> for a missing field, for \<open>null\<close> and for a field whose
  \<open>Number\<close> is NaN; the output holds the references of the input points themselves.
\<close>

theorem envelope_keeps_bucket_extrema:
  "\<exists>out. minMaxSample strToNum heap data maxPoints valueKey = Some out
     \<and> (maxPoints < length data \<longrightarrow>
          out = concat (map (emitBucket (fieldValue strToNum heap valueKey))
                  (buckets (ceilQuot (real (length data)) (real maxPoints / 2)) data)))
     \<and> (\<forall>bucket\<in>set (buckets (ceilQuot (real (length data)) (real maxPoints / 2)) data).
          case bucketExtrema (fieldValue strToNum heap valueKey) bucket of
            (minPoint, maxPoint) \<Rightarrow>
              minPoint \<in> set bucket \<and> maxPoint \<in> set bucket
              \<and> (\<forall>p\<in>set bucket.
                    fieldValue strToNum heap valueKey minPoint \<le> fieldValue strToNum heap valueKey p
                    \<and> fieldValue strToNum heap valueKey p \<le> fieldValue strToNum heap valueKey maxPoint)
              \<and> minPoint \<in> set out \<and> maxPoint \<in> set out
              \<and> (minPoint = maxPoint \<longrightarrow>
                    emitBucket (fieldValue strToNum heap valueKey) bucket = [minPoint]))
     \<and> (\<forall>q n. heap q valueKey = Some (JNumber (Num n))
            \<longrightarrow> fieldValue strToNum heap valueKey q = n)
     \<and> (\<forall>q. heap q valueKey = None \<or> heap q valueKey = Some JNull
               \<or> toNumber strToNum (getField (heap q) valueKey) = NaN
            \<longrightarrow> fieldValue strToNum heap valueKey q = Fin 0)"
proof -
  let ?val = "fieldValue strToNum heap valueKey"
  let ?bs = "buckets (ceilQuot (real (length data)) (real maxPoints / 2)) data"
  obtain out where out: "minMaxSample strToNum heap data maxPoints valueKey = Some out"
    and sampled: "maxPoints < length data \<Longrightarrow> out = concat (map (emitBucket ?val) ?bs)"
    and ident: "\<not> maxPoints < length data \<Longrightarrow> out = data"
  proof (cases "maxPoints < length data")
    case True
    then show ?thesis using that by (simp add: minMaxSample_sampled)
  next
    case False
    then show ?thesis using that by (cases "data = []") (simp_all add: minMaxSample_def)
  qed
  have per_bucket: "case bucketExtrema ?val bucket of
            (minPoint, maxPoint) \<Rightarrow>
              minPoint \<in> set bucket \<and> maxPoint \<in> set bucket
              \<and> (\<forall>p\<in>set bucket. ?val minPoint \<le> ?val p \<and> ?val p \<le> ?val maxPoint)
              \<and> minPoint \<in> set out \<and> maxPoint \<in> set out
              \<and> (minPoint = maxPoint \<longrightarrow> emitBucket ?val bucket = [minPoint])"
    if mem: "bucket \<in> set ?bs" for bucket
  proof -
    from buckets_member [OF mem] have ne: "bucket \<noteq> []" and sub: "set bucket \<subseteq> set data"
      by auto
    obtain a b where ab: "bucketExtrema ?val bucket = (a, b)"
      by (cases "bucketExtrema ?val bucket")
    note props = bucketExtrema_props [OF ne ab]
    note emit = emitBucket_set [OF ne ab]
    have "a \<in> set out \<and> b \<in> set out"
    proof (cases "maxPoints < length data")
      case True
      from emit mem have "{a, b} \<subseteq> set (concat (map (emitBucket ?val) ?bs))"
        by auto
      with sampled [OF True] show ?thesis by simp
    next
      case False
      with ident props sub show ?thesis by auto
    qed
    with props emit ab show ?thesis by simp
  qed
  have numeric: "\<forall>q n. heap q valueKey = Some (JNumber (Num n)) \<longrightarrow> ?val q = n"
    by (simp add: fieldValue_numeric)
  have coerced: "\<forall>q. heap q valueKey = None \<or> heap q valueKey = Some JNull
               \<or> toNumber strToNum (getField (heap q) valueKey) = NaN \<longrightarrow> ?val q = Fin 0"
    using fieldValue_coerced [of heap _ valueKey strToNum] fieldValue_null [of heap _ valueKey strToNum]
    by blast
  show ?thesis
    apply (rule exI [of _ out])
    apply (intro conjI)
        apply (rule out)
       apply (rule impI, erule sampled)
      apply (rule ballI, erule per_bucket)
     apply (rule numeric)
    apply (rule coerced)
    done
qed

theorem envelope_keeps_bucket_extrema_witness:
  "buckets (ceilQuot (real (length [0, 1, 2, 3 :: nat])) (real 2 / 2)) [0, 1, 2, 3 :: nat]
     = [[0, 1, 2, 3]]
   \<and> bucketExtrema (fieldValue noStrings scenarioHeap ''v'') [0, 1, 2, 3] = (3, 1)
   \<and> map (fieldValue noStrings scenarioHeap ''v'') [0, 1, 2, 3] = [Fin 1, Fin 9, Fin 2, Fin 0]
   \<and> minMaxSample noStrings scenarioHeap [0, 1, 2, 3] 2 ''v'' = Some [1, 3]
   \<and> scenarioHeap 1 ''v'' = Some (JNumber (Num (Fin 9)))
   \<and> scenarioHeap 4 ''v'' = None
   \<and> (\<exists>out. minMaxSample noStrings scenarioHeap [0, 1, 2, 3] 2 ''v'' = Some out
     \<and> (2 < length [0, 1, 2, 3 :: nat] \<longrightarrow>
          out = concat (map (emitBucket (fieldValue noStrings scenarioHeap ''v''))
                  (buckets (ceilQuot (real (length [0, 1, 2, 3 :: nat])) (real 2 / 2)) [0, 1, 2, 3])))
     \<and> (\<forall>bucket\<in>set (buckets (ceilQuot (real (length [0, 1, 2, 3 :: nat])) (real 2 / 2))
                        [0, 1, 2, 3]).
          case bucketExtrema (fieldValue noStrings scenarioHeap ''v'') bucket of
            (minPoint, maxPoint) \<Rightarrow>
              minPoint \<in> set bucket \<and> maxPoint \<in> set bucket
              \<and> (\<forall>p\<in>set bucket.
                    fieldValue noStrings scenarioHeap ''v'' minPoint \<le> fieldValue noStrings scenarioHeap ''v'' p
                    \<and> fieldValue noStrings scenarioHeap ''v'' p \<le> fieldValue noStrings scenarioHeap ''v'' maxPoint)
              \<and> minPoint \<in> set out \<and> maxPoint \<in> set out
              \<and> (minPoint = maxPoint \<longrightarrow>
                    emitBucket (fieldValue noStrings scenarioHeap ''v'') bucket = [minPoint]))
     \<and> (\<forall>q n. scenarioHeap q ''v'' = Some (JNumber (Num n))
            \<longrightarrow> fieldValue noStrings scenarioHeap ''v'' q = n)
     \<and> (\<forall>q. scenarioHeap q ''v'' = None \<or> scenarioHeap q ''v'' = Some JNull
               \<or> toNumber noStrings (getField (scenarioHeap q) ''v'') = NaN
            \<longrightarrow> fieldValue noStrings scenarioHeap ''v'' q = Fin 0))"
proof -
  have "buckets (ceilQuot (real (length [0, 1, 2, 3 :: nat])) (real 2 / 2)) [0, 1, 2, 3 :: nat]
     = [[0, 1, 2, 3]]"
    by (simp add: ceilQuot_def buckets_def chop.simps)
  moreover have "bucketExtrema (fieldValue noStrings scenarioHeap ''v'') [0, 1, 2, 3] = (3, 1)"
    by (simp add: scenario_eval)
  moreover have "map (fieldValue noStrings scenarioHeap ''v'') [0, 1, 2, 3]
      = [Fin 1, Fin 9, Fin 2, Fin 0]"
    by (simp add: scenario_eval)
  moreover have "minMaxSample noStrings scenarioHeap [0, 1, 2, 3] 2 ''v'' = Some [1, 3]"
    by (simp add: scenario_eval)
  moreover have "scenarioHeap 1 ''v'' = Some (JNumber (Num (Fin 9)))"
    by (simp add: scenarioHeap_def pointObj_def)
  moreover have "scenarioHeap 4 ''v'' = None" by (simp add: scenarioHeap_def)
  ultimately show ?thesis
    using envelope_keeps_bucket_extrema [of noStrings scenarioHeap "[0, 1, 2, 3]" 2 "''v''"]
    by blast
qed

section \<open>Identity below the threshold\<close>

text \<open>
  C3. A series whose length is at most \<open>maxPoints\<close>, the empty series included, is returned
  unchanged by both \<open>minMaxSample\<close> and \<open>evenSample\<close>.
\<close>

theorem sample_identity_below_threshold:
  assumes "length data \<le> maxPoints"
  shows "minMaxSample strToNum heap data maxPoints valueKey = Some data
         \<and> evenSample data maxPoints = Some data"
  using assms by (simp add: minMaxSample_def evenSample_def)

theorem sample_identity_below_threshold_witness:
  "length [1, 2, 3 :: nat] \<le> 3
   \<and> minMaxSample noStrings scenarioHeap [1, 2, 3 :: nat] 3 ''v'' = Some [1, 2, 3]
   \<and> evenSample [1, 2, 3 :: nat] 3 = Some [1, 2, 3]"
  using sample_identity_below_threshold [of "[1, 2, 3 :: nat]" 3 noStrings scenarioHeap "''v''"]
  by simp

section \<open>Bounded output of minMaxSample\<close>

text \<open>
  C4. For every series, \<open>maxPoints\<close> and value field, \<open>minMaxSample\<close> returns at most two
  points per bucket: the length of its output is at most twice the number of buckets of
  size \<open>bucketSize = ceil(length / (maxPoints / 2))\<close>. For a non-empty series and
  \<open>maxPoints \<ge> 1\<close> the bucket size is a positive integer and the number of buckets is
  \<open>ceil(length / bucketSize)\<close>, so the output has at most \<open>2 * ceil(length / bucketSize)\<close>
  points. In the two cases where that quotient is not a division by a positive integer the
  bound is explicit: the empty series has no bucket and an empty output, and with
  \<open>maxPoints = 0\<close> the bucket size is \<open>Infinity\<close>, the whole series is the one bucket and
  the output has at most two points.
\<close>

theorem envelope_bound:
  "\<exists>out. minMaxSample strToNum heap data maxPoints valueKey = Some out
     \<and> length out
         \<le> 2 * length (buckets (ceilQuot (real (length data)) (real maxPoints / 2)) data)
     \<and> (data \<noteq> [] \<and> 1 \<le> maxPoints \<longrightarrow>
          (\<exists>k. 0 < k \<and> ceilQuot (real (length data)) (real maxPoints / 2) = enat k
             \<and> length (buckets (enat k) data) = nat \<lceil>real (length data) / real k\<rceil>
             \<and> length out \<le> 2 * nat \<lceil>real (length data) / real k\<rceil>))
     \<and> (data = [] \<longrightarrow> out = [])
     \<and> (data \<noteq> [] \<and> maxPoints = 0 \<longrightarrow>
          ceilQuot (real (length data)) (real maxPoints / 2) = \<infinity>
          \<and> buckets \<infinity> data = [data] \<and> length out \<le> 2)"
proof -
  let ?len = "length data"
  let ?val = "fieldValue strToNum heap valueKey"
  let ?bs = "ceilQuot (real ?len) (real maxPoints / 2)"
  obtain out where out: "minMaxSample strToNum heap data maxPoints valueKey = Some out"
    and sampled: "maxPoints < ?len \<Longrightarrow> out = concat (map (emitBucket ?val) (buckets ?bs data))"
    and ident: "\<not> maxPoints < ?len \<Longrightarrow> out = data"
  proof (cases "maxPoints < ?len")
    case True
    then show ?thesis using that by (simp add: minMaxSample_sampled)
  next
    case False
    then show ?thesis using that by (cases "data = []") (simp_all add: minMaxSample_def)
  qed
  have finite_size: "\<exists>k. 0 < k \<and> ?bs = enat k
             \<and> length (buckets (enat k) data) = nat \<lceil>real ?len / real k\<rceil>
             \<and> (\<not> maxPoints < ?len \<longrightarrow> ?len \<le> 2 * nat \<lceil>real ?len / real k\<rceil>)"
    if ne: "data \<noteq> []" and mp: "1 \<le> maxPoints"
  proof -
    from mp have "0 < real maxPoints / 2" by simp
    from ceilQuot_finite [OF this, of "real ?len"] ne obtain k where
      k: "?bs = enat k" "0 < k"
      by auto
    have "?len \<le> 2 * nat \<lceil>real ?len / real k\<rceil>" if le: "?len \<le> maxPoints"
    proof -
      from k(1) mp have keq: "k = nat \<lceil>real ?len / (real maxPoints / 2)\<rceil>"
        by (simp add: ceilQuot_def)
      from le mp have "real ?len / (real maxPoints / 2) \<le> real_of_int 2"
        by (simp add: pos_divide_le_eq)
      then have "\<lceil>real ?len / (real maxPoints / 2)\<rceil> \<le> 2"
        by (simp only: ceiling_le_iff)
      then have "k \<le> 2" unfolding keq by linarith
      with k(2) have "real ?len / 2 \<le> real ?len / real k"
        by (intro divide_left_mono) auto
      also have "\<dots> \<le> real (nat \<lceil>real ?len / real k\<rceil>)" by (rule real_nat_ceiling_ge)
      finally show ?thesis by linarith
    qed
    with k show ?thesis by (auto simp: length_buckets)
  qed
  have two_per_bucket: "length out \<le> 2 * length (buckets ?bs data)"
  proof (cases "maxPoints < ?len")
    case True
    have "length (concat (map (emitBucket ?val) (buckets ?bs data)))
          \<le> 2 * length (buckets ?bs data)"
      by (rule length_concat_map_le) (rule emitBucket_length)
    with sampled [OF True] show ?thesis by simp
  next
    case False
    show ?thesis
    proof (cases "data = []")
      case True
      with ident [OF False] show ?thesis by simp
    next
      case ne: False
      with False have "1 \<le> maxPoints" by (cases data) auto
      from finite_size [OF ne this] False ident [OF False] show ?thesis by auto
    qed
  qed
  have formula: "\<exists>k. 0 < k \<and> ?bs = enat k
             \<and> length (buckets (enat k) data) = nat \<lceil>real ?len / real k\<rceil>
             \<and> length out \<le> 2 * nat \<lceil>real ?len / real k\<rceil>"
    if "data \<noteq> []" and "1 \<le> maxPoints"
  proof -
    from finite_size [OF that] obtain k where
      k: "0 < k" "?bs = enat k" "length (buckets (enat k) data) = nat \<lceil>real ?len / real k\<rceil>"
      by blast
    with two_per_bucket have "length out \<le> 2 * nat \<lceil>real ?len / real k\<rceil>" by simp
    with k show ?thesis by blast
  qed
  have empty: "out = []" if "data = []"
    using that ident by simp
  have unbounded: "?bs = \<infinity> \<and> buckets \<infinity> data = [data] \<and> length out \<le> 2"
    if "data \<noteq> []" and "maxPoints = 0"
  proof -
    from that have inf: "?bs = \<infinity>" by (simp add: ceilQuot_def)
    from that have one: "buckets \<infinity> data = [data]" by (simp add: buckets_def)
    from two_per_bucket inf one show ?thesis by simp
  qed
  show ?thesis
    apply (rule exI [of _ out])
    apply (intro conjI)
        apply (rule out)
       apply (rule two_per_bucket)
      apply (rule impI, elim conjE, erule (1) formula)
     apply (rule impI, erule empty)
    apply (rule impI, elim conjE, erule (1) unbounded)
    done
qed

theorem envelope_bound_witness:
  "ceilQuot (real (length [0, 1, 2, 3, 4 :: nat])) (real 4 / 2) = enat 3
   \<and> buckets (enat 3) [0, 1, 2, 3, 4 :: nat] = [[0, 1, 2], [3, 4]]
   \<and> nat \<lceil>real (length [0, 1, 2, 3, 4 :: nat]) / real (3 :: nat)\<rceil> = 2
   \<and> [0, 1, 2, 3, 4 :: nat] \<noteq> [] \<and> 1 \<le> (4 :: nat)
   \<and> (\<exists>out. minMaxSample noStrings scenarioHeap [0, 1, 2, 3, 4] 4 ''v'' = Some out
     \<and> length out
         \<le> 2 * length (buckets (ceilQuot (real (length [0, 1, 2, 3, 4 :: nat])) (real 4 / 2))
                         [0, 1, 2, 3, 4 :: nat])
     \<and> (\<exists>k. 0 < k \<and> ceilQuot (real (length [0, 1, 2, 3, 4 :: nat])) (real 4 / 2) = enat k
             \<and> length (buckets (enat k) [0, 1, 2, 3, 4 :: nat])
                 = nat \<lceil>real (length [0, 1, 2, 3, 4 :: nat]) / real k\<rceil>
             \<and> length out \<le> 2 * nat \<lceil>real (length [0, 1, 2, 3, 4 :: nat]) / real k\<rceil>))
   \<and> minMaxSample noStrings scenarioHeap [0, 1, 2, 3, 4] 4 ''v'' = Some [0, 1, 3]
   \<and> [0 :: nat] \<noteq> [] \<and> (0 :: nat) = 0
   \<and> minMaxSample noStrings scenarioHeap [0] 0 ''v'' = Some [0]
   \<and> (\<exists>out. minMaxSample noStrings scenarioHeap [0] 0 ''v'' = Some out
         \<and> ceilQuot (real (length [0 :: nat])) (real 0 / 2) = \<infinity>
         \<and> buckets \<infinity> [0 :: nat] = [[0]] \<and> length out \<le> 2)"
proof -
  have a: "ceilQuot (real (length [0, 1, 2, 3, 4 :: nat])) (real 4 / 2) = enat 3"
    by (simp add: ceilQuot_def)
  have b: "buckets (enat 3) [0, 1, 2, 3, 4 :: nat] = [[0, 1, 2], [3, 4]]"
    by (simp add: buckets_def chop.simps)
  have c: "nat \<lceil>real (length [0, 1, 2, 3, 4 :: nat]) / real (3 :: nat)\<rceil> = 2"
    by simp
  have d: "minMaxSample noStrings scenarioHeap [0, 1, 2, 3, 4] 4 ''v'' = Some [0, 1, 3]"
    by (simp add: scenario_eval)
  have e: "minMaxSample noStrings scenarioHeap [0] 0 ''v'' = Some [0]"
    by (simp add: scenario_eval)
  have ne: "[0, 1, 2, 3, 4 :: nat] \<noteq> []" "1 \<le> (4 :: nat)" "[0 :: nat] \<noteq> []" by simp_all
  from envelope_bound [of noStrings scenarioHeap "[0, 1, 2, 3, 4]" 4 "''v''"]
    envelope_bound [of noStrings scenarioHeap "[0]" 0 "''v''"] a b c d e ne
  show ?thesis by blast
qed

section \<open>Order preservation\<close>

text \<open>
  C5. The output of \<open>minMaxSample\<close> and of \<open>evenSample\<close> is the input read at strictly
  increasing indices, so every output point is an input point and positions never go
  backward; the same holds for what one bucket emits relative to the bucket, so whichever of
  the minimum and the maximum point occurs first in the bucket is emitted first.
\<close>

theorem samplers_preserve_order:
  "(\<exists>out is. minMaxSample strToNum heap data maxPoints valueKey = Some out
       \<and> sorted_wrt (<) is \<and> (\<forall>i\<in>set is. i < length data) \<and> out = map ((!) data) is)
   \<and> (\<exists>out is. evenSample data maxPoints = Some out
       \<and> sorted_wrt (<) is \<and> (\<forall>i\<in>set is. i < length data) \<and> out = map ((!) data) is)
   \<and> (\<exists>is. sorted_wrt (<) is \<and> (\<forall>i\<in>set is. i < length bucket)
       \<and> emitBucket (fieldValue strToNum heap valueKey) bucket = map ((!) bucket) is)"
proof (intro conjI)
  let ?val = "fieldValue strToNum heap valueKey"
  obtain out where out: "minMaxSample strToNum heap data maxPoints valueKey = Some out"
    and sub: "subseq out data"
  proof (cases "maxPoints < length data")
    case True
    let ?bs = "buckets (ceilQuot (real (length data)) (real maxPoints / 2)) data"
    from True have "ceilQuot (real (length data)) (real maxPoints / 2) \<noteq> 0"
      by (intro ceilQuot_nonzero) auto
    then have "concat ?bs = data" by (rule concat_buckets)
    moreover have "subseq (concat (map (emitBucket ?val) ?bs)) (concat ?bs)"
      by (rule subseq_concat_map) (rule emitBucket_subseq)
    ultimately show ?thesis using that True by (simp add: minMaxSample_sampled)
  next
    case False
    then show ?thesis using that by (cases "data = []") (simp_all add: minMaxSample_def)
  qed
  from subseq_indices [OF sub] out
  show "\<exists>out is. minMaxSample strToNum heap data maxPoints valueKey = Some out
       \<and> sorted_wrt (<) is \<and> (\<forall>i\<in>set is. i < length data) \<and> out = map ((!) data) is"
    by blast
next
  obtain out where out: "evenSample data maxPoints = Some out" and sub: "subseq out data"
  proof (cases "maxPoints < length data")
    case True
    let ?step = "ceilQuot (real (length data)) (real maxPoints)"
    define r where "r = map hd (buckets ?step data)"
    note r = evenSample_sampled_last [OF True r_def]
    from True have step: "?step \<noteq> 0" by (intro ceilQuot_nonzero) auto
    from True have ne: "data \<noteq> []" by auto
    show ?thesis
    proof (cases "last r = last data")
      case True
      with r that show ?thesis by simp
    next
      case False
      from evenSample_append_subseq [OF ne step] False have "subseq (r @ [last data]) data"
        unfolding r_def by simp
      with r False that show ?thesis by simp
    qed
  next
    case False
    then show ?thesis using that by (cases "data = []") (simp_all add: evenSample_def)
  qed
  from subseq_indices [OF sub] out
  show "\<exists>out is. evenSample data maxPoints = Some out
       \<and> sorted_wrt (<) is \<and> (\<forall>i\<in>set is. i < length data) \<and> out = map ((!) data) is"
    by blast
next
  show "\<exists>is. sorted_wrt (<) is \<and> (\<forall>i\<in>set is. i < length bucket)
       \<and> emitBucket (fieldValue strToNum heap valueKey) bucket = map ((!) bucket) is"
    by (rule subseq_indices) (rule emitBucket_subseq)
qed

theorem samplers_preserve_order_witness:
  "(minMaxSample noStrings scenarioHeap [0, 1, 2, 3] 2 ''v'' = Some (map ((!) [0, 1, 2, 3]) [1, 3])
    \<and> evenSample [0, 1, 2, 3 :: nat] 2 = Some (map ((!) [0, 1, 2, 3]) [0, 2, 3]))
   \<and> (\<exists>out is. minMaxSample noStrings scenarioHeap [0, 1, 2, 3] 2 ''v'' = Some out
       \<and> sorted_wrt (<) is \<and> (\<forall>i\<in>set is. i < length [0, 1, 2, 3 :: nat])
       \<and> out = map ((!) [0, 1, 2, 3]) is)
   \<and> (\<exists>out is. evenSample [0, 1, 2, 3 :: nat] 2 = Some out
       \<and> sorted_wrt (<) is \<and> (\<forall>i\<in>set is. i < length [0, 1, 2, 3 :: nat])
       \<and> out = map ((!) [0, 1, 2, 3]) is)
   \<and> (\<exists>is. sorted_wrt (<) is \<and> (\<forall>i\<in>set is. i < length [0, 1, 2, 3 :: nat])
       \<and> emitBucket (fieldValue noStrings scenarioHeap ''v'') [0, 1, 2, 3] = map ((!) [0, 1, 2, 3]) is)"
proof -
  have "minMaxSample noStrings scenarioHeap [0, 1, 2, 3] 2 ''v'' = Some (map ((!) [0, 1, 2, 3]) [1, 3])"
    by (simp add: scenario_eval)
  moreover have "evenSample [0, 1, 2, 3 :: nat] 2 = Some (map ((!) [0, 1, 2, 3]) [0, 2, 3])"
    by (simp add: evenSample_def ceilQuot_def zero_enat_def evenLoop.simps)
  ultimately show ?thesis
    using samplers_preserve_order [of noStrings scenarioHeap "[0, 1, 2, 3]" 2 "''v''" "[0, 1, 2, 3]"]
    by blast
qed

section \<open>Axis ticks\<close>




section \<open>First and last point of evenSample\<close>

text \<open>
  C7. For every non-empty series, \<open>evenSample\<close> returns an output that starts with the
  first input point and ends with the last input point: the last point is appended when the
  last strided point is not identical to it.
\<close>

theorem evenSample_first_last:
  assumes "data \<noteq> []"
  shows "\<exists>out. evenSample data maxPoints = Some out \<and> out \<noteq> []
           \<and> hd out = hd data \<and> last out = last data"
proof (cases "maxPoints < length data")
  case True
  define r where "r = map hd (buckets (ceilQuot (real (length data)) (real maxPoints)) data)"
  from evenSample_sampled_last [OF True r_def] show ?thesis
    by (cases "last r = last data") auto
next
  case False
  with assms show ?thesis by (simp add: evenSample_def)
qed

theorem evenSample_first_last_witness:
  "[0, 1, 2, 3 :: nat] \<noteq> []
   \<and> evenSample [0, 1, 2, 3 :: nat] 2 = Some [0, 2, 3]
   \<and> (\<exists>out. evenSample [0, 1, 2, 3 :: nat] 2 = Some out \<and> out \<noteq> []
           \<and> hd out = hd [0, 1, 2, 3] \<and> last out = last [0, 1, 2, 3])"
proof -
  have "evenSample [0, 1, 2, 3 :: nat] 2 = Some [0, 2, 3]"
    by (simp add: evenSample_def ceilQuot_def zero_enat_def evenLoop.simps)
  moreover have ne: "[0, 1, 2, 3 :: nat] \<noteq> []" by simp
  ultimately show ?thesis using evenSample_first_last [OF ne, of 2] by blast
qed

section \<open>The rendering-limit guard\<close>

text \<open>
  C8. \<open>checkRenderingLimits\<close> returns a value for every input: above \<open>2 * 500 = 1000\<close> points
  a fallback whose reason is \<open>Too many data points (<pointCount>) for chart rendering\<close>,
  whatever the category count; otherwise, with a category count above 12, a fallback whose
  reason names the category count; otherwise no fallback and no reason.
\<close>

theorem checkRenderingLimits_cases:
  "(1000 < pointCount \<longrightarrow>
      checkRenderingLimits pointCount categoryCount =
        \<lparr>needsFallback = True,
         reason = Some (''Too many data points ('' @ showNat pointCount @ '') for chart rendering'')\<rparr>)
   \<and> (pointCount \<le> 1000 \<and> categoryCount = Some c \<and> 12 < c \<longrightarrow>
      checkRenderingLimits pointCount categoryCount =
        \<lparr>needsFallback = True,
         reason = Some (''Too many categories ('' @ showNat c @ '') for readable chart'')\<rparr>)
   \<and> (pointCount \<le> 1000 \<and> (categoryCount = None \<or> (\<exists>k. categoryCount = Some k \<and> k \<le> 12)) \<longrightarrow>
      checkRenderingLimits pointCount categoryCount = \<lparr>needsFallback = False, reason = None\<rparr>)"
  by (auto simp: checkRenderingLimits_def MAX_CHART_POINTS_def MAX_CATEGORIES_def)

theorem checkRenderingLimits_cases_witness:
  "(1000 < (1200 :: nat)
    \<and> checkRenderingLimits 1200 None =
        \<lparr>needsFallback = True,
         reason = Some ''Too many data points (1200) for chart rendering''\<rparr>)
   \<and> ((800 :: nat) \<le> 1000 \<and> Some (20 :: nat) = Some 20 \<and> (12 :: nat) < 20
    \<and> checkRenderingLimits 800 (Some 20) =
        \<lparr>needsFallback = True,
         reason = Some ''Too many categories (20) for readable chart''\<rparr>)
   \<and> ((800 :: nat) \<le> 1000 \<and> checkRenderingLimits 800 None = \<lparr>needsFallback = False, reason = None\<rparr>)"
  using checkRenderingLimits_cases [of 1200 None 0] checkRenderingLimits_cases [of 800 "Some 20" 20]
    checkRenderingLimits_cases [of 800 None 0]
  by (simp add: showNat.simps digitChar_def)

section \<open>Date labels\<close>

text \<open>
  C9. \<open>formatDateLabel\<close> is a total function of its input: a number is returned as its
  string, a bare four-digit year is returned unchanged, every string that is neither a bare
  four-digit year nor an ISO-prefixed string that parses to a valid date is returned
  unchanged, and the hint \<open>auto\<close> gives the same output as \<open>year\<close> on every input.
\<close>

theorem formatDateLabel_fallbacks:
  "formatDateLabel numberToString parseDate (NumberValue n) format = numberToString n
   \<and> (isBareYear str \<longrightarrow>
        formatDateLabel numberToString parseDate (StringValue str) format = str)
   \<and> (\<not> isBareYear str \<and> \<not> (isIsoPrefixed str \<and> parseDate str \<noteq> None) \<longrightarrow>
        formatDateLabel numberToString parseDate (StringValue str) format = str)
   \<and> formatDateLabel numberToString parseDate val FmtAuto
       = formatDateLabel numberToString parseDate val FmtYear"
  by (auto simp: formatDateLabel_def split: labelValue.splits option.splits)

theorem formatDateLabel_fallbacks_witness:
  "isBareYear ''2024''
   \<and> formatDateLabel showInt sampleParseDate (StringValue ''2024'') FmtMonth = ''2024''
   \<and> \<not> isBareYear ''2024-13-45'' \<and> isIsoPrefixed ''2024-13-45''
   \<and> \<not> (isIsoPrefixed ''2024-13-45'' \<and> sampleParseDate ''2024-13-45'' \<noteq> None)
   \<and> formatDateLabel showInt sampleParseDate (StringValue ''2024-13-45'') FmtMonth = ''2024-13-45''
   \<and> \<not> isBareYear ''Q1 2024'' \<and> \<not> isIsoPrefixed ''Q1 2024''
   \<and> formatDateLabel showInt sampleParseDate (StringValue ''Q1 2024'') FmtDay = ''Q1 2024''
   \<and> formatDateLabel showInt sampleParseDate (NumberValue 2024) FmtDay = ''2024''
   \<and> formatDateLabel showInt sampleParseDate (StringValue ''2024-01-15'') FmtAuto = ''2024''
   \<and> formatDateLabel showInt sampleParseDate (StringValue ''2024-01-15'') FmtYear = ''2024''"
  using formatDateLabel_fallbacks [of showInt sampleParseDate 2024 FmtDay "''2024''" "StringValue ''2024-01-15''"]
    formatDateLabel_fallbacks [of showInt sampleParseDate 2024 FmtMonth "''2024-13-45''" "StringValue ''2024-01-15''"]
    formatDateLabel_fallbacks [of showInt sampleParseDate 2024 FmtDay "''Q1 2024''" "StringValue ''2024-01-15''"]
  by (simp add: isBareYear_def isIsoPrefixed_def isDigit_def sampleParseDate_def showInt_def
      showNat.simps digitChar_def formatDateLabel_def)

section \<open>Output size of evenSample\<close>

text \<open>
  C10. For every series and every \<open>maxPoints \<ge> 1\<close>, \<open>evenSample\<close> returns at most
  \<open>maxPoints + 1\<close> points. The appended last point can make it exactly
  \<open>maxPoints + 1\<close> (four points, \<open>maxPoints = 2\<close>, three returned), so \<open>maxPoints\<close>
  is not a bound; and with \<open>maxPoints = 0\<close> two points are returned, more than
  \<open>maxPoints + 1\<close>.
\<close>

theorem evenSample_length_bound:
  "(1 \<le> maxPoints \<longrightarrow>
      (\<exists>out. evenSample data maxPoints = Some out \<and> length out \<le> maxPoints + 1))
   \<and> (\<exists>out. evenSample [0, 1, 2, 3 :: nat] 2 = Some out \<and> length out = 2 + 1)
   \<and> (\<exists>out. evenSample [0, 1 :: nat] 0 = Some out \<and> \<not> length out \<le> 0 + 1)"
proof (intro conjI impI)
  assume mp: "1 \<le> maxPoints"
  show "\<exists>out. evenSample data maxPoints = Some out \<and> length out \<le> maxPoints + 1"
  proof (cases "maxPoints < length data")
    case True
    let ?len = "length data"
    define r where "r = map hd (buckets (ceilQuot (real ?len) (real maxPoints)) data)"
    from mp have "0 < real maxPoints" by simp
    from ceilQuot_finite [OF this, of "real ?len"] True obtain k where
      k: "ceilQuot (real ?len) (real maxPoints) = enat k"
         "real ?len \<le> real k * real maxPoints" "0 < k"
      by auto
    from k(2) have "real ?len \<le> real (k * maxPoints)" by simp
    then have "?len \<le> k * maxPoints" by (simp only: of_nat_le_iff)
    with k(3) have "?len + k - 1 < (maxPoints + 1) * k" by (simp add: algebra_simps)
    then have "(?len + k - 1) div k < maxPoints + 1" by (rule less_mult_imp_div_less)
    with k have "length r \<le> maxPoints"
      by (simp add: r_def buckets_def length_chop)
    with evenSample_sampled_last [OF True r_def] show ?thesis
      by (cases "last r = last data") auto
  next
    case False
    then show ?thesis by (cases "data = []") (simp_all add: evenSample_def)
  qed
next
  show "\<exists>out. evenSample [0, 1, 2, 3 :: nat] 2 = Some out \<and> length out = 2 + 1"
    by (simp add: evenSample_def ceilQuot_def zero_enat_def evenLoop.simps)
next
  show "\<exists>out. evenSample [0, 1 :: nat] 0 = Some out \<and> \<not> length out \<le> 0 + 1"
    by (simp add: evenSample_def ceilQuot_def zero_enat_def evenLoop.simps)
qed

theorem evenSample_length_bound_witness:
  "1 \<le> (3 :: nat) \<and> evenSample [0, 1, 2, 3 :: nat] 3 = Some [0, 2, 3]
   \<and> (\<exists>out. evenSample [0, 1, 2, 3 :: nat] 3 = Some out \<and> length out \<le> 3 + 1)"
proof -
  have "evenSample [0, 1, 2, 3 :: nat] 3 = Some [0, 2, 3]"
    by (simp add: evenSample_def ceilQuot_def zero_enat_def evenLoop.simps)
  then show ?thesis
    using evenSample_length_bound [of 3 "[0, 1, 2, 3 :: nat]"] by simp
qed

end
